theory Spec2Isabelle
  imports Main
begin

section \<open>The range compressor of app.py\<close>

text \<open>
  The only algorithmic function of the dashboard is \<^verbatim>\<open>get_contiguous_ranges\<close>
  (app.py, lines 32 to 44), which the specification calls \<^verbatim>\<open>compress\<close>:
  \<^verbatim>\<open>
  def get_contiguous_ranges(indices):
      if not indices:
          return []
      ranges = []
      start = prev = indices[0]
      for i in indices[1:]:
          if i == prev + 1:
              prev = i
          else:
              ranges.append((start, prev))
              start = prev = i
      ranges.append((start, prev))
      return ranges
  \<close>
  Python integers are unbounded, so they are \<^typ>\<open>int\<close>; a Python list of integers is an
  \<^typ>\<open>int list\<close>; a tuple \<^verbatim>\<open>(start, prev)\<close> is a pair.
\<close>

subsection \<open>Python list operations\<close>

text \<open>
  The one operation of the function that can raise is the subscript \<^verbatim>\<open>indices[0]\<close>:
  a subscript outside \<^verbatim>\<open>-len(xs) .. len(xs) - 1\<close> raises \<^verbatim>\<open>IndexError\<close>, and a negative
  one counts from the end of the list.
\<close>

datatype py_error = IndexError

definition getitem :: "int list \<Rightarrow> int \<Rightarrow> py_error + int" where
  "getitem xs k =
     (if 0 \<le> k \<and> k < int (length xs) then Inr (xs ! nat k)
      else if k < 0 \<and> - int (length xs) \<le> k then Inr (xs ! nat (int (length xs) + k))
      else Inl IndexError)"

text \<open>
  The slice \<^verbatim>\<open>indices[1:]\<close> never raises: on a list shorter than the lower bound it is
  the empty list. It is \<^term>\<open>drop 1 indices\<close>.
\<close>

subsection \<open>The loop\<close>

text \<open>The three locals the loop updates: \<^verbatim>\<open>ranges\<close>, \<^verbatim>\<open>start\<close> and \<^verbatim>\<open>prev\<close>.\<close>

record scan_state =
  ranges :: "(int \<times> int) list"
  start :: int
  prev :: int

text \<open>
  One round of the \<^verbatim>\<open>for\<close> loop, lines 38 to 42, for the loop variable \<^verbatim>\<open>i\<close>. In the
  \<^verbatim>\<open>else\<close> branch the pair appended is built from the old \<^verbatim>\<open>start\<close> and \<^verbatim>\<open>prev\<close>,
  before both are overwritten.
\<close>

definition loop_body :: "scan_state \<Rightarrow> int \<Rightarrow> scan_state" where
  "loop_body s i =
     (if i = prev s + 1 then s\<lparr>prev := i\<rparr>
      else \<lparr>ranges = ranges s @ [(start s, prev s)], start = i, prev = i\<rparr>)"

text \<open>The \<^verbatim>\<open>for\<close> loop over the elements of a list, first to last.\<close>

fun for_loop :: "scan_state \<Rightarrow> int list \<Rightarrow> scan_state" where
  "for_loop s [] = s"
| "for_loop s (i # rest) = for_loop (loop_body s i) rest"

subsection \<open>The function\<close>

text \<open>
  \<^verbatim>\<open>not indices\<close> is true of a list exactly when it is empty. The result is \<open>Inl\<close> of the
  exception when a statement raises and \<open>Inr\<close> of the returned list otherwise.
\<close>

definition get_contiguous_ranges :: "int list \<Rightarrow> py_error + (int \<times> int) list" where
  "get_contiguous_ranges indices =
     (if indices = [] then Inr []
      else
        (case getitem indices 0 of
           Inl err \<Rightarrow> Inl err
         | Inr first \<Rightarrow>
             (let s = for_loop \<lparr>ranges = [], start = first, prev = first\<rparr> (drop 1 indices)
              in Inr (ranges s @ [(start s, prev s)]))))"

subsection \<open>The reference scan of the specification\<close>

text \<open>
  The specification (section 4.1) describes \<^verbatim>\<open>compress\<close> as one pass from left to right
  that keeps the start of the current range and the last value seen. A value equal to
  the last one plus one extends the current range; any other value closes the current
  range, which is the next range of the result, and opens a new one at that value. At
  the end of the input the one pending range is the last range of the result. An empty
  input gives an empty result.
\<close>

fun spec_scan :: "int \<Rightarrow> int \<Rightarrow> int list \<Rightarrow> (int \<times> int) list" where
  "spec_scan st pv [] = [(st, pv)]"
| "spec_scan st pv (i # rest) =
     (if i = pv + 1 then spec_scan st i rest else (st, pv) # spec_scan i i rest)"

fun spec_compress :: "int list \<Rightarrow> (int \<times> int) list" where
  "spec_compress [] = []"
| "spec_compress (x # xs) = spec_scan x x xs"

subsection \<open>Notions the properties are stated with\<close>

text \<open>
  Expanding a range list: every range \<open>(s, e)\<close> becomes the integers \<open>s, s + 1, ..., e\<close>,
  and the pieces are concatenated in order.
\<close>

definition expand :: "(int \<times> int) list \<Rightarrow> int list" where
  "expand rs = concat (map (\<lambda>(s, e). [s..e]) rs)"

text \<open>
  The positions \<open>j \<ge> 1\<close> of a list at which the element is not its predecessor plus one.
\<close>

definition breaks :: "int list \<Rightarrow> nat list" where
  "breaks xs = filter (\<lambda>j. xs ! j \<noteq> xs ! (j - 1) + 1) [1..<length xs]"

section \<open>Properties\<close>

subsection \<open>The loop against the reference scan\<close>

lemma getitem_first: "getitem (x # xs) 0 = Inr x"
  by (simp add: getitem_def)

lemma for_loop_spec_scan:
  "ranges (for_loop s rest) @ [(start (for_loop s rest), prev (for_loop s rest))]
     = ranges s @ spec_scan (start s) (prev s) rest"
proof (induction rest arbitrary: s)
  case Nil
  show ?case by simp
next
  case (Cons i rest)
  show ?case
  proof (cases "i = prev s + 1")
    case True
    then show ?thesis
      using Cons.IH [of "loop_body s i"] by (simp add: loop_body_def)
  next
    case False
    then show ?thesis
      using Cons.IH [of "loop_body s i"] by (simp add: loop_body_def)
  qed
qed

lemma get_contiguous_ranges_scan:
  "get_contiguous_ranges xs = Inr (spec_compress xs)"
proof (cases xs)
  case Nil
  then show ?thesis by (simp add: get_contiguous_ranges_def)
next
  case (Cons x rest)
  then show ?thesis
    using for_loop_spec_scan [of "\<lparr>ranges = [], start = x, prev = x\<rparr>" rest]
    by (simp add: get_contiguous_ranges_def getitem_first Let_def)
qed

text \<open>
  Claim C3. The function equals the reference scan of the specification: on every list
  of integers it returns, without raising, the range list that the single pass of
  section 4.1 produces.
\<close>

theorem compress_refines_spec_scan:
  "get_contiguous_ranges xs = Inr (spec_compress xs)"
  by (rule get_contiguous_ranges_scan)

text \<open>
  Claim C4. The outputs on the example inputs of the specification: the empty list
  gives the empty range list, \<open>[5]\<close> gives \<open>[(5, 5)]\<close>, and \<open>[1, 2, 3, 7, 8, 10]\<close> gives
  \<open>[(1, 3), (7, 8), (10, 10)]\<close>.
\<close>

theorem compress_examples:
  "get_contiguous_ranges [] = Inr []
   \<and> get_contiguous_ranges [5] = Inr [(5, 5)]
   \<and> get_contiguous_ranges [1, 2, 3, 7, 8, 10] = Inr [(1, 3), (7, 8), (10, 10)]"
  by (simp add: get_contiguous_ranges_def getitem_def loop_body_def)

text \<open>
  Claim C6. The function is total and cannot fail: on every list of integers, sorted or
  not, empty or not, it returns a range list and raises nothing. The subscript
  \<^verbatim>\<open>indices[0]\<close> is only reached on a non-empty list, where it succeeds.
\<close>

theorem compress_never_raises:
  "\<exists>rs. get_contiguous_ranges xs = Inr rs"
proof (cases xs)
  case Nil
  then show ?thesis by (simp add: get_contiguous_ranges_def)
next
  case (Cons x rest)
  then show ?thesis by (simp add: get_contiguous_ranges_def getitem_first Let_def)
qed

subsection \<open>Expanding the result gives the input back\<close>

text \<open>
  Every range the scan closes is a run of values that each exceed their predecessor by
  one, so writing the ranges out again restores the input list, whatever its order.
\<close>

lemma expand_spec_scan:
  "st \<le> pv \<Longrightarrow> expand (spec_scan st pv rest) = [st..pv] @ rest"
proof (induction rest arbitrary: st pv)
  case Nil
  then show ?case by (simp add: expand_def)
next
  case (Cons i rest)
  show ?case
  proof (cases "i = pv + 1")
    case True
    with Cons.prems have "st \<le> i" by simp
    from Cons.IH [OF this] True Cons.prems show ?thesis
      by (simp add: upto_rec2)
  next
    case False
    have "expand (spec_scan i i rest) = [i..i] @ rest"
      by (rule Cons.IH) simp
    with False show ?thesis by (simp add: expand_def)
  qed
qed

lemma expand_spec_compress: "expand (spec_compress xs) = xs"
proof (cases xs)
  case Nil
  then show ?thesis by (simp add: expand_def)
next
  case (Cons x rest)
  then show ?thesis by (simp add: expand_spec_scan)
qed

lemma set_expand: "set (expand rs) = (\<Union>(s, e)\<in>set rs. {s..e})"
  by (auto simp: expand_def)

text \<open>
  Claim C1. For every strictly ascending list of integers \<open>xs\<close>, the function returns a
  range list, and the union of the closed intervals \<open>[start, end]\<close> of its pairs is the
  set of the elements of \<open>xs\<close>.
\<close>

theorem compress_union_is_input:
  "sorted_wrt (<) xs \<Longrightarrow>
   \<exists>rs. get_contiguous_ranges xs = Inr rs \<and> (\<Union>(s, e)\<in>set rs. {s..e}) = set xs"
  using set_expand [of "spec_compress xs"]
  by (simp add: get_contiguous_ranges_scan expand_spec_compress)

theorem compress_union_is_input_witness:
  "sorted_wrt (<) [1, 2, 3, 7, 8, 10 :: int]
   \<and> (\<exists>rs. get_contiguous_ranges [1, 2, 3, 7, 8, 10] = Inr rs
         \<and> (\<Union>(s, e)\<in>set rs. {s..e}) = set [1, 2, 3, 7, 8, 10])"
proof -
  have h: "sorted_wrt (<) [1, 2, 3, 7, 8, 10 :: int]" by simp
  from compress_union_is_input [OF h] h show ?thesis by blast
qed

text \<open>
  Claim C5. For every strictly ascending list of integers \<open>xs\<close>, expanding each range of
  the result into its integers, concatenating them in order and running the function
  again gives the same range list.
\<close>

theorem compress_expand_idempotent:
  "sorted_wrt (<) xs \<Longrightarrow>
   \<exists>rs. get_contiguous_ranges xs = Inr rs \<and> get_contiguous_ranges (expand rs) = Inr rs"
  by (simp add: get_contiguous_ranges_scan expand_spec_compress)

theorem compress_expand_idempotent_witness:
  "sorted_wrt (<) [0, 1, 5, 6, 7, 9 :: int]
   \<and> (\<exists>rs. get_contiguous_ranges [0, 1, 5, 6, 7, 9] = Inr rs
         \<and> get_contiguous_ranges (expand rs) = Inr rs)"
proof -
  have h: "sorted_wrt (<) [0, 1, 5, 6, 7, 9 :: int]" by simp
  from compress_expand_idempotent [OF h] h show ?thesis by blast
qed

subsection \<open>Well-formed output on strictly ascending input\<close>

lemma spec_scan_gaps:
  "sorted_wrt (<) (pv # rest) \<Longrightarrow> st \<le> pv \<Longrightarrow>
   sorted_wrt (\<lambda>a b. snd a + 1 < fst b) (spec_scan st pv rest)
   \<and> (\<forall>r\<in>set (spec_scan st pv rest). st \<le> fst r \<and> fst r \<le> snd r)"
proof (induction rest arbitrary: st pv)
  case Nil
  then show ?case by simp
next
  case (Cons i rest)
  from Cons.prems have lt: "pv < i" and srt: "sorted_wrt (<) (i # rest)"
    by simp_all
  show ?case
  proof (cases "i = pv + 1")
    case True
    from Cons.prems lt have "st \<le> i" by simp
    from Cons.IH [OF srt this] True show ?thesis by simp
  next
    case False
    with lt have gap: "pv + 1 < i" by simp
    from Cons.IH [OF srt order_refl]
    have ih: "sorted_wrt (\<lambda>a b. snd a + 1 < fst b) (spec_scan i i rest)"
      and lo: "\<forall>r\<in>set (spec_scan i i rest). i \<le> fst r \<and> fst r \<le> snd r"
      by simp_all
    from lo gap Cons.prems(2) lt
    have "\<forall>r\<in>set (spec_scan i i rest). pv + 1 < fst r \<and> st \<le> fst r"
      by fastforce
    with ih lo False Cons.prems(2) show ?thesis by simp
  qed
qed

lemma spec_compress_gaps:
  assumes "sorted_wrt (<) xs"
  shows "sorted_wrt (\<lambda>a b. snd a + 1 < fst b) (spec_compress xs)"
    and "\<forall>r\<in>set (spec_compress xs). fst r \<le> snd r"
proof -
  show "sorted_wrt (\<lambda>a b. snd a + 1 < fst b) (spec_compress xs)"
  proof (cases xs)
    case Nil
    then show ?thesis by simp
  next
    case (Cons x rest)
    with assms spec_scan_gaps [of x rest x] show ?thesis by simp
  qed
  show "\<forall>r\<in>set (spec_compress xs). fst r \<le> snd r"
  proof (cases xs)
    case Nil
    then show ?thesis by simp
  next
    case (Cons x rest)
    with assms spec_scan_gaps [of x rest x] show ?thesis by simp
  qed
qed

text \<open>
  Claim C2. For every strictly ascending list of integers \<open>xs\<close>, the function returns a
  range list in which every pair \<open>(start, end)\<close> has \<open>start \<le> end\<close>, the ranges are in
  ascending order (a range ends before every later range starts), and two consecutive
  ranges \<open>(s1, e1)\<close>, \<open>(s2, e2)\<close> satisfy \<open>s2 > e1 + 1\<close>.
\<close>

theorem compress_well_formed:
  "sorted_wrt (<) xs \<Longrightarrow>
   \<exists>rs. get_contiguous_ranges xs = Inr rs
     \<and> (\<forall>(s, e)\<in>set rs. s \<le> e)
     \<and> (\<forall>j k. j < k \<and> k < length rs \<longrightarrow> snd (rs ! j) < fst (rs ! k))
     \<and> (\<forall>j. Suc j < length rs \<longrightarrow> fst (rs ! Suc j) > snd (rs ! j) + 1)"
proof -
  assume srt: "sorted_wrt (<) xs"
  let ?rs = "spec_compress xs"
  have gaps: "sorted_wrt (\<lambda>a b. snd a + 1 < fst b) ?rs"
    and le: "\<forall>r\<in>set ?rs. fst r \<le> snd r"
    using spec_compress_gaps [OF srt] by simp_all
  have far: "snd (?rs ! j) + 1 < fst (?rs ! k)" if "j < k" "k < length ?rs" for j k
    using gaps that by (simp add: sorted_wrt_iff_nth_less)
  have a: "\<forall>(s, e)\<in>set ?rs. s \<le> e"
    using le by auto
  have b: "\<forall>j k. j < k \<and> k < length ?rs \<longrightarrow> snd (?rs ! j) < fst (?rs ! k)"
    using far by fastforce
  have c: "\<forall>j. Suc j < length ?rs \<longrightarrow> fst (?rs ! Suc j) > snd (?rs ! j) + 1"
    using far by simp
  from a b c show ?thesis
    by (simp add: get_contiguous_ranges_scan)
qed

theorem compress_well_formed_witness:
  "sorted_wrt (<) [2, 3, 5, 9, 10, 11 :: int]
   \<and> (\<exists>rs. get_contiguous_ranges [2, 3, 5, 9, 10, 11] = Inr rs
         \<and> (\<forall>(s, e)\<in>set rs. s \<le> e)
         \<and> (\<forall>j k. j < k \<and> k < length rs \<longrightarrow> snd (rs ! j) < fst (rs ! k))
         \<and> (\<forall>j. Suc j < length rs \<longrightarrow> fst (rs ! Suc j) > snd (rs ! j) + 1))"
proof -
  have h: "sorted_wrt (<) [2, 3, 5, 9, 10, 11 :: int]" by simp
  from compress_well_formed [OF h] h show ?thesis by blast
qed

subsection \<open>First start, last end, and where the bounds come from\<close>

lemma spec_scan_ends:
  "spec_scan st pv rest \<noteq> []
   \<and> fst (hd (spec_scan st pv rest)) = st
   \<and> snd (last (spec_scan st pv rest)) = last (pv # rest)"
proof (induction rest arbitrary: st pv)
  case Nil
  show ?case by simp
next
  case (Cons i rest)
  show ?case
  proof (cases "i = pv + 1")
    case True
    with Cons.IH [of st i] show ?thesis by simp
  next
    case False
    with Cons.IH [of i i] show ?thesis by simp
  qed
qed

text \<open>
  Claim C8. For every non-empty list of integers \<open>xs\<close>, sorted or not, the function
  returns a non-empty range list; the start of its first range is the first element of
  \<open>xs\<close> and the end of its last range is the last element of \<open>xs\<close>.
\<close>

theorem compress_first_start_last_end:
  "xs \<noteq> [] \<Longrightarrow>
   \<exists>rs. get_contiguous_ranges xs = Inr rs
     \<and> rs \<noteq> [] \<and> fst (hd rs) = hd xs \<and> snd (last rs) = last xs"
proof -
  assume "xs \<noteq> []"
  then obtain x rest where "xs = x # rest" by (cases xs) simp_all
  with spec_scan_ends [of x x rest] show ?thesis
    by (simp add: get_contiguous_ranges_scan)
qed

theorem compress_first_start_last_end_witness:
  "[4, 2, 3, 3 :: int] \<noteq> []
   \<and> (\<exists>rs. get_contiguous_ranges [4, 2, 3, 3] = Inr rs
         \<and> rs \<noteq> [] \<and> fst (hd rs) = hd [4, 2, 3, 3] \<and> snd (last rs) = last [4, 2, 3, 3])"
proof -
  have h: "[4, 2, 3, 3 :: int] \<noteq> []" by simp
  from compress_first_start_last_end [OF h] h show ?thesis by blast
qed

lemma spec_scan_members:
  "(s, e) \<in> set (spec_scan st pv rest) \<Longrightarrow>
   s \<in> set (st # rest) \<and> e \<in> set (pv # rest)"
proof (induction rest arbitrary: st pv)
  case Nil
  then show ?case by simp
next
  case (Cons i rest)
  show ?case
  proof (cases "i = pv + 1")
    case True
    with Cons.prems have "(s, e) \<in> set (spec_scan st i rest)" by simp
    from Cons.IH [OF this] show ?thesis by auto
  next
    case False
    with Cons.prems have "(s, e) = (st, pv) \<or> (s, e) \<in> set (spec_scan i i rest)"
      by simp
    then show ?thesis
    proof
      assume "(s, e) = (st, pv)"
      then show ?thesis by simp
    next
      assume "(s, e) \<in> set (spec_scan i i rest)"
      from Cons.IH [OF this] show ?thesis by auto
    qed
  qed
qed

text \<open>
  Claim C10. For every list of integers \<open>xs\<close>, sorted or not, the function returns a
  range list in which every start and every end is an element of \<open>xs\<close>.
\<close>

theorem compress_bounds_from_input:
  "\<exists>rs. get_contiguous_ranges xs = Inr rs
     \<and> (\<forall>(s, e)\<in>set rs. s \<in> set xs \<and> e \<in> set xs)"
proof (cases xs)
  case Nil
  then show ?thesis by (simp add: get_contiguous_ranges_scan)
next
  case (Cons x rest)
  have "\<forall>(s, e)\<in>set (spec_scan x x rest). s \<in> set (x # rest) \<and> e \<in> set (x # rest)"
    using spec_scan_members [of _ _ x x rest] by blast
  with Cons show ?thesis
    by (simp add: get_contiguous_ranges_scan)
qed

theorem compress_bounds_from_input_witness:
  "\<exists>rs. get_contiguous_ranges [3, 1, 2, 2, 5] = Inr rs
     \<and> (\<forall>(s, e)\<in>set rs. s \<in> set [3, 1, 2, 2, 5] \<and> e \<in> set [3, 1, 2, 2, 5])"
  by (rule compress_bounds_from_input [of "[3, 1, 2, 2, 5]"])

subsection \<open>The number of ranges\<close>

lemma breaks_Cons_Cons:
  "breaks (a # b # rest) = (if b \<noteq> a + 1 then [1] else []) @ map Suc (breaks (b # rest))"
proof -
  let ?P = "\<lambda>j. (a # b # rest) ! j \<noteq> (a # b # rest) ! (j - 1) + 1"
  let ?Q = "\<lambda>j. (b # rest) ! j \<noteq> (b # rest) ! (j - 1) + 1"
  define l where "l = [1..<length (b # rest)]"
  have "[Suc 0..<Suc (Suc (length rest))] = Suc 0 # [Suc (Suc 0)..<Suc (Suc (length rest))]"
    by (rule upt_conv_Cons) simp
  also have "[Suc (Suc 0)..<Suc (Suc (length rest))] = map Suc [Suc 0..<Suc (length rest)]"
    by (rule map_Suc_upt [symmetric])
  finally have ups: "[1..<length (a # b # rest)] = 1 # map Suc l"
    by (simp add: l_def)
  have pos: "1 \<le> j" if "j \<in> set l" for j
    using that by (simp add: l_def del: upt_Suc)
  have shift: "filter (?P \<circ> Suc) l = filter ?Q l"
  proof (rule filter_cong [OF refl])
    fix j assume "j \<in> set l"
    then have "1 \<le> j" by (rule pos)
    then obtain k where "j = Suc k" by (cases j) simp_all
    then show "(?P \<circ> Suc) j = ?Q j" by simp
  qed
  have "breaks (a # b # rest) = filter ?P (1 # map Suc l)"
    unfolding breaks_def ups ..
  also have "\<dots> = (if b \<noteq> a + 1 then [1] else []) @ filter ?P (map Suc l)"
    by simp
  also have "filter ?P (map Suc l) = map Suc (filter (?P \<circ> Suc) l)"
    by (simp add: filter_map)
  also have "filter (?P \<circ> Suc) l = filter ?Q l"
    by (rule shift)
  also have "filter ?Q l = breaks (b # rest)"
    unfolding breaks_def l_def ..
  finally show ?thesis .
qed

lemma length_spec_scan:
  "length (spec_scan st pv rest) = 1 + length (breaks (pv # rest))"
proof (induction rest arbitrary: st pv)
  case Nil
  show ?case by (simp add: breaks_def)
next
  case (Cons i rest)
  show ?case
  proof (cases "i = pv + 1")
    case True
    with Cons.IH [of st i] show ?thesis by (simp add: breaks_Cons_Cons)
  next
    case False
    with Cons.IH [of i i] show ?thesis by (simp add: breaks_Cons_Cons)
  qed
qed

lemma length_breaks: "xs \<noteq> [] \<Longrightarrow> 1 + length (breaks xs) \<le> length xs"
proof -
  assume ne: "xs \<noteq> []"
  have "length (breaks xs) \<le> length [1..<length xs]"
    unfolding breaks_def by (rule length_filter_le)
  then have "length (breaks xs) \<le> length xs - 1"
    by (simp only: length_upt)
  with ne show ?thesis by (cases xs) simp_all
qed

lemma length_breaks_card:
  "length (breaks xs) = card {j. 1 \<le> j \<and> j < length xs \<and> xs ! j \<noteq> xs ! (j - 1) + 1}"
proof -
  have "distinct (breaks xs)"
    unfolding breaks_def by (rule distinct_filter) (rule distinct_upt)
  then have "length (breaks xs) = card (set (breaks xs))"
    by (simp add: distinct_card)
  also have "set (breaks xs) = {j. 1 \<le> j \<and> j < length xs \<and> xs ! j \<noteq> xs ! (j - 1) + 1}"
    unfolding breaks_def by (auto simp del: upt_Suc)
  finally show ?thesis .
qed

text \<open>
  Claim C9. For every non-empty list of integers \<open>xs\<close>, the number of ranges the
  function returns is one more than the number of positions \<open>j \<ge> 1\<close> with
  \<open>xs[j] \<noteq> xs[j - 1] + 1\<close>; so it is at least one and at most the length of \<open>xs\<close>.
\<close>

theorem compress_length:
  "xs \<noteq> [] \<Longrightarrow>
   \<exists>rs. get_contiguous_ranges xs = Inr rs
     \<and> length rs = 1 + card {j. 1 \<le> j \<and> j < length xs \<and> xs ! j \<noteq> xs ! (j - 1) + 1}
     \<and> 1 \<le> length rs \<and> length rs \<le> length xs"
proof -
  assume ne: "xs \<noteq> []"
  then obtain x rest where xs: "xs = x # rest" by (cases xs) simp_all
  have "length (spec_compress xs) = 1 + length (breaks xs)"
    using xs length_spec_scan [of x x rest] by simp
  with length_breaks [OF ne] show ?thesis
    by (simp add: get_contiguous_ranges_scan length_breaks_card)
qed

theorem compress_length_witness:
  "[1, 2, 3, 7, 8, 10 :: int] \<noteq> []
   \<and> (\<exists>rs. get_contiguous_ranges [1, 2, 3, 7, 8, 10] = Inr rs
         \<and> length rs = 1 + card {j. 1 \<le> j \<and> j < length [1, 2, 3, 7, 8, 10 :: int]
                                   \<and> [1, 2, 3, 7, 8, 10 :: int] ! j
                                        \<noteq> [1, 2, 3, 7, 8, 10] ! (j - 1) + 1}
         \<and> 1 \<le> length rs \<and> length rs \<le> length [1, 2, 3, 7, 8, 10 :: int])"
proof -
  have h: "[1, 2, 3, 7, 8, 10 :: int] \<noteq> []" by simp
  from compress_length [OF h] h show ?thesis by blast
qed

end
